theory Spec2Isabelle
  imports Main "HOL-Library.Char_ord" "HOL-Library.List_Lexorder" "HOL-Library.Multiset"
begin

section \<open>Python string and path primitives used by the commands\<close>

text \<open>
  The commands of \<^verbatim>\<open>cli.py\<close> call a handful of Python built-ins on strings and
  POSIX paths.  Strings are \<^typ>\<open>string\<close>; tags and paths are ASCII, for which the
  order of \<^typ>\<open>char\<close> agrees with Python's code point order.
\<close>

text \<open>\<^verbatim>\<open>s.split(c)\<close> for a one-character separator: always at least one piece.\<close>

fun str_split :: "char \<Rightarrow> string \<Rightarrow> string list" where
  "str_split c [] = [[]]"
| "str_split c (x # xs) =
     (if x = c then [] # str_split c xs
      else (case str_split c xs of
              [] \<Rightarrow> [[x]]
            | p # ps \<Rightarrow> (x # p) # ps))"

text \<open>\<^verbatim>\<open>sep.join(parts)\<close>.\<close>

fun str_join :: "string \<Rightarrow> string list \<Rightarrow> string" where
  "str_join sep [] = []"
| "str_join sep [p] = p"
| "str_join sep (p # q # ps) = p @ sep @ str_join sep (q # ps)"

text \<open>
  \<^verbatim>\<open>os.path.split(p)\<close> of \<^verbatim>\<open>posixpath\<close>: the tail is what follows the last slash;
  the head is what precedes it, with trailing slashes stripped unless it consists of
  slashes only.
\<close>

definition path_split :: "string \<Rightarrow> string \<times> string" where
  "path_split p =
     (let tail = rev (takeWhile (\<lambda>c. c \<noteq> CHR ''/'') (rev p));
          head = rev (dropWhile (\<lambda>c. c \<noteq> CHR ''/'') (rev p))
      in if head \<noteq> [] \<and> head \<noteq> replicate (length head) CHR ''/''
         then (rev (dropWhile (\<lambda>c. c = CHR ''/'') (rev head)), tail)
         else (head, tail))"

text \<open>
  \<^verbatim>\<open>os.path.join(a, *p)\<close> of \<^verbatim>\<open>posixpath\<close>: a component that starts with a slash
  replaces what was built so far; otherwise it is appended, after a slash unless the
  path so far is empty or ends with one.
\<close>

definition join_step :: "string \<Rightarrow> string \<Rightarrow> string" where
  "join_step path b =
     (if b \<noteq> [] \<and> hd b = CHR ''/'' then b
      else if path = [] \<or> last path = CHR ''/'' then path @ b
      else path @ ''/'' @ b)"

definition path_join :: "string \<Rightarrow> string list \<Rightarrow> string" where
  "path_join a p = foldl join_step a p"

text \<open>
  \<^verbatim>\<open>os.path.splitext(p)\<close>: the extension starts at the last dot of the last path
  component, provided some character other than a dot precedes it there.
\<close>

definition path_splitext :: "string \<Rightarrow> string \<times> string" where
  "path_splitext p =
     (let name = rev (takeWhile (\<lambda>c. c \<noteq> CHR ''/'') (rev p));
          ext = CHR ''.'' # rev (takeWhile (\<lambda>c. c \<noteq> CHR ''.'') (rev name));
          stem = take (length name - length ext) name
      in if CHR ''.'' \<in> set name \<and> (\<exists>c \<in> set stem. c \<noteq> CHR ''.'')
         then (take (length p - length ext) p, ext)
         else (p, []))"

text \<open>\<^verbatim>\<open>f"{count}"\<close>: a natural number in decimal.\<close>

fun digits_of :: "nat \<Rightarrow> nat \<Rightarrow> string" where
  "digits_of 0 n = []"
| "digits_of (Suc fuel) n =
     (if n < 10 then [char_of (48 + n)]
      else digits_of fuel (n div 10) @ [char_of (48 + n mod 10)])"

definition str_of_nat :: "nat \<Rightarrow> string" where
  "str_of_nat n = digits_of (Suc n) n"

section \<open>Files and the permutation engine\<close>

text \<open>
  A file as \<^verbatim>\<open>util.find_files\<close> hands it to its callback: a dictionary with the
  keys \<^verbatim>\<open>original\<close> (the path as found), \<^verbatim>\<open>dir\<close> (the containing directory),
  \<^verbatim>\<open>filename\<close> (name with extension, tags stripped) and \<^verbatim>\<open>tags\<close> (a set).
\<close>

type_synonym tag_set = "string set"

record file_info =
  original :: string
  dir :: string
  filename :: string
  tags :: tag_set

text \<open>\<^verbatim>\<open>sorted(file['tags'])\<close>: the tags in ascending order.\<close>

definition sorted_tags :: "tag_set \<Rightarrow> string list" where
  "sorted_tags T = sorted_list_of_set T"

text \<open>
  Modelled from the spec: a helper of the permutation engine, whose module is not among
  the sources: every way of taking one element out of a list, in list order.
\<close>

fun picks :: "'a list \<Rightarrow> ('a \<times> 'a list) list" where
  "picks [] = []"
| "picks (x # xs) = (x, xs) # map (\<lambda>(y, ys). (y, x # ys)) (picks xs)"

text \<open>
  Modelled from the spec: the orderings the permutation engine emits, ``every one of the
  N! orderings of the N tags'': each first element followed by the orderings of the
  rest (for a sorted input this is the lexicographic order of the orderings).
\<close>

function permutations :: "'a list \<Rightarrow> 'a list list" where
  "permutations xs =
     (if xs = [] then [[]]
      else concat (map (\<lambda>(y, ys). map ((#) y) (permutations ys)) (picks xs)))"
  by pat_completeness auto
termination
proof (relation "measure length")
  show "wf (measure length)" by simp
next
  fix xs :: "'a list" and p :: "'a \<times> 'a list" and y ys
  assume "xs \<noteq> []" and p: "p \<in> set (picks xs)" and "(y, ys) = p"
  have "\<And>q. q \<in> set (picks xs) \<Longrightarrow> Suc (length (snd q)) = length xs"
    by (induction xs) auto
  from this [OF p] \<open>(y, ys) = p\<close> show "(ys, xs) \<in> measure length" by auto
qed

declare permutations.simps [simp del]

text \<open>
  Modelled from the spec: \<^verbatim>\<open>util.permute\<close>, the permutation engine, whose module is
  not among the sources.  The spec gives it the sorted tag list and a mode flag, and
  has it emit every ordering of the tags as a placement path; in tree mode
  ``every permutation's path is still generated'' and nesting is left to the caller,
  so both modes emit the same list.
\<close>

definition permute :: "string list \<Rightarrow> bool \<Rightarrow> string list list" where
  "permute tag_list tree = permutations tag_list"

section \<open>Tag handlers of the mutation commands\<close>

text \<open>
  \<^verbatim>\<open>_add\<close> and \<^verbatim>\<open>_remove\<close> split their \<^verbatim>\<open>TAGS\<close> argument at commas and hand
  \<^verbatim>\<open>util.rename_files\<close> a closure that mutates the file's tag set in place:
  \<^verbatim>\<open>tag_set.update(tag_list)\<close> and \<^verbatim>\<open>tag_set.difference_update(tag_list)\<close>.
  The closures are modelled as functions from the old tag set to the new one.
\<close>

definition tag_list_of :: "string \<Rightarrow> string list" where
  "tag_list_of TAGS = str_split CHR '','' TAGS"

definition add_handler :: "string \<Rightarrow> tag_set \<Rightarrow> tag_set" where
  "add_handler TAGS tag_set = tag_set \<union> set (tag_list_of TAGS)"

definition remove_handler :: "string \<Rightarrow> tag_set \<Rightarrow> tag_set" where
  "remove_handler TAGS tag_set = tag_set - set (tag_list_of TAGS)"

text \<open>
  \<^verbatim>\<open>_rename\<close>: the closure removes \<^verbatim>\<open>old_tag\<close> and adds \<^verbatim>\<open>new_tag\<close> only when
  \<^verbatim>\<open>old_tag\<close> is in the set.
\<close>

definition rename_handler :: "string \<Rightarrow> string \<Rightarrow> tag_set \<Rightarrow> tag_set" where
  "rename_handler old_tag new_tag tag_set =
     (if old_tag \<in> tag_set then insert new_tag (tag_set - {old_tag}) else tag_set)"

text \<open>
  Modelled from the spec: \<^verbatim>\<open>util.rename_files\<close> and the tag codec, whose module is
  not among the sources.  The spec has the mutation engine apply the closure to the
  file's tag set, re-serialize the name as \<^verbatim>\<open><base>{tag1}...{tagN}<ext>\<close> in the
  file's own directory (serialization puts the tags in ascending order, which is all
  the \<^verbatim>\<open>sort\<close> command relies on), print \<^verbatim>\<open>old -> new\<close> under \<^verbatim>\<open>--verbose\<close> on
  change, and rename on disk unless \<^verbatim>\<open>--debug\<close>.  Files are processed independently.
\<close>

definition serialize :: "string \<Rightarrow> string list \<Rightarrow> string \<Rightarrow> string" where
  "serialize base tag_list ext = base @ concat (map (\<lambda>t. ''{'' @ t @ ''}'') tag_list) @ ext"

text \<open>
  Modelled from the spec: the path a file gets for a tag set, in the file's own
  directory, the tag blocks between base name and extension in ascending order.
\<close>

definition new_path :: "file_info \<Rightarrow> tag_set \<Rightarrow> string" where
  "new_path f T =
     (case path_splitext (filename f) of
        (base, ext) \<Rightarrow> path_join (dir f) [serialize base (sorted_tags T) ext])"

text \<open>
  Modelled from the spec: what the mutation engine does for one file: the renames
  performed on disk, as pairs of old and new path, and the lines printed.
\<close>

record rename_report =
  renamed :: "(string \<times> string) list"
  printed :: "string list"

text \<open>
  Modelled from the spec: one file of \<^verbatim>\<open>util.rename_files\<close>: nothing happens when the
  new path is the original one; otherwise the change is printed under \<^verbatim>\<open>--verbose\<close>
  and the file is renamed unless \<^verbatim>\<open>--debug\<close>.
\<close>

definition rename_file :: "bool \<Rightarrow> bool \<Rightarrow> (tag_set \<Rightarrow> tag_set) \<Rightarrow> file_info \<Rightarrow> rename_report" where
  "rename_file verbose debug tag_handler f =
     (let new = new_path f (tag_handler (tags f))
      in if new = original f then \<lparr>renamed = [], printed = []\<rparr>
         else \<lparr>renamed = (if debug then [] else [(original f, new)]),
               printed = (if verbose then [original f @ '' -> '' @ new] else [])\<rparr>)"

text \<open>
  Modelled from the spec: \<^verbatim>\<open>util.rename_files\<close>, each file processed on its own.
\<close>

definition rename_files ::
  "bool \<Rightarrow> bool \<Rightarrow> file_info list \<Rightarrow> (tag_set \<Rightarrow> tag_set) \<Rightarrow> rename_report list" where
  "rename_files verbose debug files tag_handler = map (rename_file verbose debug tag_handler) files"

text \<open>
  The \<^verbatim>\<open>rename\<close> and \<^verbatim>\<open>sort\<close> commands: \<^verbatim>\<open>_rename\<close> passes its closure,
  \<^verbatim>\<open>_sort\<close> passes \<^verbatim>\<open>lambda tag_set: tag_set\<close>.
\<close>

definition cli_rename :: "bool \<Rightarrow> bool \<Rightarrow> string \<Rightarrow> string \<Rightarrow> file_info list \<Rightarrow> rename_report list" where
  "cli_rename verbose debug old_tag new_tag files =
     rename_files verbose debug files (rename_handler old_tag new_tag)"

definition cli_sort :: "bool \<Rightarrow> bool \<Rightarrow> file_info list \<Rightarrow> rename_report list" where
  "cli_sort verbose debug files = rename_files verbose debug files (\<lambda>tag_set. tag_set)"

section \<open>The index command\<close>

subsection \<open>What the command is run against\<close>

text \<open>
  Errors the command can end with: the \<^verbatim>\<open>click.ClickException\<close> it raises itself,
  a \<^verbatim>\<open>KeyError\<close> of a dictionary lookup, and whatever an operating system call raises.
\<close>

datatype error = ClickException string | KeyError string | OSError string

datatype fs_call = Makedirs string | Symlink string string

text \<open>
  The operating system calls of \<^verbatim>\<open>_index\<close> and the two functions of the missing
  \<^verbatim>\<open>util\<close> module it calls are parameters of the model, over any type \<open>'fs\<close> of
  file system states.  \<^verbatim>\<open>os.makedirs\<close> and \<^verbatim>\<open>os.symlink\<close> return the new state and
  the exception raised, if any; \<^verbatim>\<open>util.find_files\<close> is the list of files it passes to
  its callback, in order; \<^verbatim>\<open>util.permute\<close> gets the sorted tags and the tree flag.
\<close>

record 'fs env =
  os_path_abspath :: "string \<Rightarrow> string"
  os_path_exists :: "'fs \<Rightarrow> string \<Rightarrow> bool"
  os_listdir :: "'fs \<Rightarrow> string \<Rightarrow> error + string list"
  os_makedirs :: "string \<Rightarrow> 'fs \<Rightarrow> error option \<times> 'fs"
  os_symlink :: "string \<Rightarrow> string \<Rightarrow> 'fs \<Rightarrow> error option \<times> 'fs"
  util_find_files :: "'fs \<Rightarrow> string \<Rightarrow> bool \<Rightarrow> bool \<Rightarrow> file_info list"
  util_permute :: "string list \<Rightarrow> bool \<Rightarrow> string list list"

text \<open>
  What a run has done so far: the file system, the mutating calls issued and the lines
  printed with \<^verbatim>\<open>click.echo\<close>.
\<close>

record 'fs world =
  fs_state :: 'fs
  calls :: "fs_call list"
  console :: "string list"

definition echo :: "string \<Rightarrow> 'fs world \<Rightarrow> 'fs world" where
  "echo line w = w\<lparr>console := console w @ [line]\<rparr>"

definition do_makedirs :: "'fs env \<Rightarrow> string \<Rightarrow> 'fs world \<Rightarrow> error option \<times> 'fs world" where
  "do_makedirs env p w =
     (case os_makedirs env p (fs_state w) of
        (r, fs') \<Rightarrow> (r, w\<lparr>fs_state := fs', calls := calls w @ [Makedirs p]\<rparr>))"

definition do_symlink :: "'fs env \<Rightarrow> string \<Rightarrow> string \<Rightarrow> 'fs world \<Rightarrow> error option \<times> 'fs world" where
  "do_symlink env src dst w =
     (case os_symlink env src dst (fs_state w) of
        (r, fs') \<Rightarrow> (r, w\<lparr>fs_state := fs', calls := calls w @ [Symlink src dst]\<rparr>))"

subsection \<open>Building the index\<close>

text \<open>
  The dictionary \<^verbatim>\<open>index\<close>, in insertion order.  \<^verbatim>\<open>index_append\<close> is
  \<^verbatim>\<open>if path not in index: index[path] = []\<close> followed by \<^verbatim>\<open>index[path].append(file)\<close>.
\<close>

type_synonym index = "(string \<times> file_info list) list"

fun index_append :: "index \<Rightarrow> string \<Rightarrow> file_info \<Rightarrow> index" where
  "index_append [] path f = [(path, [f])]"
| "index_append ((k, fs) # rest) path f =
     (if k = path then (k, fs @ [f]) # rest else (k, fs) # index_append rest path f)"

text \<open>The key of a file under one placement path (lines 203 and 204).\<close>

definition index_key :: "string \<Rightarrow> string list \<Rightarrow> file_info \<Rightarrow> string" where
  "index_key output perm f =
     (let name = snd (path_split (original f))
      in path_join output (perm @ [name]))"

definition index_file ::
  "(string list \<Rightarrow> bool \<Rightarrow> string list list) \<Rightarrow> string \<Rightarrow> bool \<Rightarrow> index \<Rightarrow> file_info \<Rightarrow> index" where
  "index_file permute_fn output tree idx f =
     foldl (\<lambda>idx perm. index_append idx (index_key output perm f) f) idx
       (permute_fn (sorted_tags (tags f)) tree)"

definition build_index ::
  "(string list \<Rightarrow> bool \<Rightarrow> string list list) \<Rightarrow> string \<Rightarrow> bool \<Rightarrow> file_info list \<Rightarrow> index" where
  "build_index permute_fn output tree file_list = foldl (index_file permute_fn output tree) [] file_list"

text \<open>The files \<^verbatim>\<open>handle_file\<close> keeps: those with at least one tag.\<close>

definition tagged_files :: "file_info list \<Rightarrow> file_info list" where
  "tagged_files found = filter (\<lambda>f. card (tags f) > 0) found"

subsection \<open>Creating the links\<close>

text \<open>
  The name a file gets under a key with several files (lines 226 to 232): the part of
  its directory after the search root, its separators replaced by hyphens, goes between
  the base name and the extension; nothing is added when that part is empty.
\<close>

definition disambiguated :: "string \<Rightarrow> file_info \<Rightarrow> string" where
  "disambiguated abspath f =
     (let path = drop (length abspath + 1) (dir f)
      in if path \<noteq> [] then
           (let split = str_split CHR ''/'' path;
                ident = str_join ''-'' split
            in case path_splitext (filename f) of
                 (base, ext) \<Rightarrow> base @ ''-'' @ ident @ ext)
         else filename f)"

text \<open>Printing and creating one link: the last lines of both branches.\<close>

definition link_step ::
  "'fs env \<Rightarrow> bool \<Rightarrow> bool \<Rightarrow> string \<Rightarrow> string \<Rightarrow> 'fs world \<Rightarrow> error option \<times> 'fs world" where
  "link_step env debug verbose src dst w =
     (let w1 = (if verbose then echo (dst @ '' -> '' @ src) w else w)
      in if \<not> debug then do_symlink env src dst w1 else (None, w1))"

text \<open>The inner loop over the files of a key claimed by several files.\<close>

fun link_files ::
  "'fs env \<Rightarrow> bool \<Rightarrow> bool \<Rightarrow> string \<Rightarrow> string \<Rightarrow> file_info list \<Rightarrow> 'fs world
     \<Rightarrow> error option \<times> 'fs world" where
  "link_files env debug verbose abspath parent [] w = (None, w)"
| "link_files env debug verbose abspath parent (f # rest) w =
     (case link_step env debug verbose (original f)
             (path_join parent [disambiguated abspath f]) w of
        (Some e, w') \<Rightarrow> (Some e, w')
      | (None, w') \<Rightarrow> link_files env debug verbose abspath parent rest w')"

text \<open>The body of the loop over the sorted keys; the count is threaded through.\<close>

definition process_key ::
  "'fs env \<Rightarrow> bool \<Rightarrow> bool \<Rightarrow> string \<Rightarrow> index \<Rightarrow> string \<Rightarrow> nat \<Rightarrow> 'fs world
     \<Rightarrow> error option \<times> nat \<times> 'fs world" where
  "process_key env debug verbose abspath idx key cnt w =
     (case map_of idx key of
        None \<Rightarrow> (Some (KeyError key), cnt, w)
      | Some files \<Rightarrow>
          (let index_len = length files;
               count' = cnt + index_len;
               parent = fst (path_split key)
           in case (if \<not> debug then do_makedirs env parent w else (None, w)) of
                (Some e, w1) \<Rightarrow> (Some e, count', w1)
              | (None, w1) \<Rightarrow>
                  (case (if index_len = 1
                         then link_step env debug verbose (original (files ! 0))
                                (path_join parent [filename (files ! 0)]) w1
                         else link_files env debug verbose abspath parent files w1) of
                     (r, w2) \<Rightarrow> (r, count', w2))))"

fun process_keys ::
  "'fs env \<Rightarrow> bool \<Rightarrow> bool \<Rightarrow> string \<Rightarrow> index \<Rightarrow> string list \<Rightarrow> nat \<Rightarrow> 'fs world
     \<Rightarrow> error option \<times> nat \<times> 'fs world" where
  "process_keys env debug verbose abspath idx [] cnt w = (None, cnt, w)"
| "process_keys env debug verbose abspath idx (key # keys) cnt w =
     (case process_key env debug verbose abspath idx key cnt w of
        (Some e, count', w') \<Rightarrow> (Some e, count', w')
      | (None, count', w') \<Rightarrow> process_keys env debug verbose abspath idx keys count' w')"

text \<open>The closing lines: a blank line and the count, under \<^verbatim>\<open>--verbose\<close> and for a positive count.\<close>

definition summary :: "bool \<Rightarrow> nat \<Rightarrow> string list" where
  "summary debug cnt =
     (let message = (if debug then ''to index'' else ''indexed'')
      in [[], str_of_nat cnt @ '' files '' @ message @ ''.''])"

definition report_count :: "bool \<Rightarrow> bool \<Rightarrow> nat \<Rightarrow> 'fs world \<Rightarrow> 'fs world" where
  "report_count debug verbose cnt w =
     (if verbose \<and> cnt > 0 then w\<lparr>console := console w @ summary debug cnt\<rparr> else w)"

subsection \<open>The command of \<^verbatim>\<open>tag/cli.py\<close>\<close>

definition conflict_message :: "string \<Rightarrow> string" where
  "conflict_message output =
     ''Index directory '' @ [CHR 0x22] @ output @ [CHR 0x22] @ '' exists with content. ''
     @ ''Delete '' @ [CHR 0x22] @ output @ [CHR 0x22] @ '' or choose a different path.''"

text \<open>
  The guard \<^verbatim>\<open>os.path.exists(output) and os.listdir(output)\<close> and its \<^verbatim>\<open>raise\<close>:
  the error the command stops with before anything else, if any.
\<close>

definition destination_check :: "'fs env \<Rightarrow> 'fs \<Rightarrow> string \<Rightarrow> error option" where
  "destination_check env fs0 output =
     (if os_path_exists env fs0 output then
        (case os_listdir env fs0 output of
           Inl e \<Rightarrow> Some e
         | Inr [] \<Rightarrow> None
         | Inr (entry # entries) \<Rightarrow> Some (ClickException (conflict_message output)))
      else None)"

definition cli_index ::
  "'fs env \<Rightarrow> bool \<Rightarrow> bool \<Rightarrow> bool \<Rightarrow> bool \<Rightarrow> bool \<Rightarrow> string \<Rightarrow> string \<Rightarrow> 'fs
     \<Rightarrow> error option \<times> 'fs world" where
  "cli_index env all debug recursive tree verbose path output fs0 =
     (let abspath = os_path_abspath env path;
          w0 = \<lparr>fs_state = fs0, calls = [], console = []\<rparr>
      in case destination_check env fs0 output of
           Some e \<Rightarrow> (Some e, w0)
         | None \<Rightarrow>
             (let file_list = tagged_files (util_find_files env fs0 abspath recursive all);
                  idx = build_index (util_permute env) output tree file_list
              in case process_keys env debug verbose abspath idx (sort (map fst idx)) 0 w0 of
                   (Some e, cnt, w) \<Rightarrow> (Some e, w)
                 | (None, cnt, w) \<Rightarrow> (None, report_count debug verbose cnt w)))"

subsection \<open>The command of \<^verbatim>\<open>src/cli.py\<close>\<close>

text \<open>
  The other \<^verbatim>\<open>_index\<close> has no \<^verbatim>\<open>--tree\<close> flag, calls \<^verbatim>\<open>util.permute\<close> with the
  sorted tags alone, has no guard on \<^verbatim>\<open>OUTPUT\<close>, and its loop only prints.
\<close>

definition echo_step :: "bool \<Rightarrow> string \<Rightarrow> string \<Rightarrow> 'fs world \<Rightarrow> 'fs world" where
  "echo_step verbose src out_path w =
     (if verbose then echo (out_path @ '' -> '' @ src) w else w)"

fun echo_files :: "bool \<Rightarrow> string \<Rightarrow> string \<Rightarrow> file_info list \<Rightarrow> 'fs world \<Rightarrow> 'fs world" where
  "echo_files verbose abspath parent [] w = w"
| "echo_files verbose abspath parent (f # rest) w =
     echo_files verbose abspath parent rest
       (echo_step verbose (original f) (path_join parent [disambiguated abspath f]) w)"

definition echo_key ::
  "bool \<Rightarrow> string \<Rightarrow> index \<Rightarrow> string \<Rightarrow> nat \<Rightarrow> 'fs world \<Rightarrow> error option \<times> nat \<times> 'fs world" where
  "echo_key verbose abspath idx key cnt w =
     (case map_of idx key of
        None \<Rightarrow> (Some (KeyError key), cnt, w)
      | Some files \<Rightarrow>
          (let index_len = length files;
               count' = cnt + index_len;
               parent = fst (path_split key)
           in if index_len = 1
              then (None, count',
                    echo_step verbose (original (files ! 0)) (path_join parent [filename (files ! 0)]) w)
              else (None, count', echo_files verbose abspath parent files w)))"

fun echo_keys ::
  "bool \<Rightarrow> string \<Rightarrow> index \<Rightarrow> string list \<Rightarrow> nat \<Rightarrow> 'fs world \<Rightarrow> error option \<times> nat \<times> 'fs world" where
  "echo_keys verbose abspath idx [] cnt w = (None, cnt, w)"
| "echo_keys verbose abspath idx (key # keys) cnt w =
     (case echo_key verbose abspath idx key cnt w of
        (Some e, count', w') \<Rightarrow> (Some e, count', w')
      | (None, count', w') \<Rightarrow> echo_keys verbose abspath idx keys count' w')"

definition cli_index_src ::
  "'fs env \<Rightarrow> (string list \<Rightarrow> string list list) \<Rightarrow> bool \<Rightarrow> bool \<Rightarrow> bool \<Rightarrow> bool \<Rightarrow> string \<Rightarrow> string \<Rightarrow> 'fs
     \<Rightarrow> error option \<times> 'fs world" where
  "cli_index_src env permute1 all debug recursive verbose path output fs0 =
     (let abspath = os_path_abspath env path;
          w0 = \<lparr>fs_state = fs0, calls = [], console = []\<rparr>;
          file_list = tagged_files (util_find_files env fs0 abspath recursive all);
          idx = build_index (\<lambda>tag_list tree. permute1 tag_list) output False file_list
      in case echo_keys verbose abspath idx (sort (map fst idx)) 0 w0 of
           (Some e, cnt, w) \<Rightarrow> (Some e, w)
         | (None, cnt, w) \<Rightarrow> (None, report_count debug verbose cnt w))"

subsection \<open>The links of a run\<close>

text \<open>
  The pairs of destination and source a key stands for, and those of a whole index in
  ascending key order: what the loop prints and links, as a list.
\<close>

definition key_links :: "string \<Rightarrow> string \<Rightarrow> file_info list \<Rightarrow> (string \<times> string) list" where
  "key_links abspath key files =
     (let parent = fst (path_split key)
      in if length files = 1
         then [(path_join parent [filename (files ! 0)], original (files ! 0))]
         else map (\<lambda>f. (path_join parent [disambiguated abspath f], original f)) files)"

definition index_get :: "index \<Rightarrow> string \<Rightarrow> file_info list" where
  "index_get idx key = (case map_of idx key of None \<Rightarrow> [] | Some files \<Rightarrow> files)"

definition planned_links :: "string \<Rightarrow> index \<Rightarrow> (string \<times> string) list" where
  "planned_links abspath idx =
     concat (map (\<lambda>key. key_links abspath key (index_get idx key)) (sort (map fst idx)))"

definition link_line :: "string \<times> string \<Rightarrow> string" where
  "link_line l = fst l @ '' -> '' @ snd l"

definition link_call :: "string \<times> string \<Rightarrow> fs_call" where
  "link_call l = Symlink (snd l) (fst l)"

text \<open>The index a run of the command builds.\<close>

definition index_of :: "'fs env \<Rightarrow> bool \<Rightarrow> bool \<Rightarrow> bool \<Rightarrow> string \<Rightarrow> string \<Rightarrow> 'fs \<Rightarrow> index" where
  "index_of env all recursive tree path output fs0 =
     build_index (util_permute env) output tree
       (tagged_files (util_find_files env fs0 (os_path_abspath env path) recursive all))"

text \<open>Printing and creating the links of a list one after the other, up to the first error.\<close>

fun perform_links ::
  "'fs env \<Rightarrow> bool \<Rightarrow> bool \<Rightarrow> (string \<times> string) list \<Rightarrow> 'fs world \<Rightarrow> error option \<times> 'fs world" where
  "perform_links env debug verbose [] w = (None, w)"
| "perform_links env debug verbose (l # ls) w =
     (case link_step env debug verbose (snd l) (fst l) w of
        (Some e, w') \<Rightarrow> (Some e, w')
      | (None, w') \<Rightarrow> perform_links env debug verbose ls w')"

text \<open>The files a key holds in the index of a file list, written as a comprehension.\<close>

definition claimants ::
  "(string list \<Rightarrow> bool \<Rightarrow> string list list) \<Rightarrow> string \<Rightarrow> bool \<Rightarrow> file_info list \<Rightarrow> string \<Rightarrow> file_info list" where
  "claimants permute_fn output tree file_list key =
     concat (map (\<lambda>f. concat (map (\<lambda>perm. if index_key output perm f = key then [f] else [])
                                  (permute_fn (sorted_tags (tags f)) tree))) file_list)"

text \<open>The links among the calls issued, as pairs of destination and source.\<close>

fun symlinks_of :: "fs_call list \<Rightarrow> (string \<times> string) list" where
  "symlinks_of [] = []"
| "symlinks_of (Makedirs p # cs) = symlinks_of cs"
| "symlinks_of (Symlink src dst # cs) = (dst, src) # symlinks_of cs"

subsection \<open>A small file system to run the command on\<close>

text \<open>
  Two files \<^verbatim>\<open>a/x{foo}.txt\<close> and \<^verbatim>\<open>b/x{foo}.txt\<close> under the search root \<^verbatim>\<open>/r\<close>, a
  file \<^verbatim>\<open>y{foo}{bar}.txt\<close> in the search root, and
  a file system that is the list of its paths: creating a link on an existing path
  fails, listing a directory gives the paths directly below it.
\<close>

definition file_a :: file_info where
  "file_a = \<lparr>original = ''/r/a/x{foo}.txt'', dir = ''/r/a'', filename = ''x.txt'', tags = {''foo''}\<rparr>"

definition file_b :: file_info where
  "file_b = \<lparr>original = ''/r/b/x{foo}.txt'', dir = ''/r/b'', filename = ''x.txt'', tags = {''foo''}\<rparr>"

definition file_c :: file_info where
  "file_c = \<lparr>original = ''/r/y{foo}{bar}.txt'', dir = ''/r'', filename = ''y.txt'',
              tags = {''foo'', ''bar''}\<rparr>"

definition demo_env :: "string list env" where
  "demo_env =
     \<lparr>os_path_abspath = (\<lambda>p. p),
      os_path_exists = (\<lambda>fs p. p \<in> set fs),
      os_listdir = (\<lambda>fs p. Inr (filter (\<lambda>q. fst (path_split q) = p) fs)),
      os_makedirs = (\<lambda>p fs. (None, List.insert p fs)),
      os_symlink = (\<lambda>src dst fs.
         if dst \<in> set fs then (Some (OSError ''FileExistsError''), fs) else (None, dst # fs)),
      util_find_files = (\<lambda>fs root recursive all. [file_a, file_b]),
      util_permute = permute\<rparr>"

text \<open>The same file system with the files \<^verbatim>\<open>a/x{foo}.txt\<close> and \<^verbatim>\<open>y{foo}{bar}.txt\<close> found.\<close>

definition demo_env_keys :: "string list env" where
  "demo_env_keys = demo_env\<lparr>util_find_files := (\<lambda>fs root recursive all. [file_a, file_c])\<rparr>"

text \<open>A file whose name has its tags out of order, and one whose name has them in order.\<close>

definition file_unsorted :: file_info where
  "file_unsorted =
     \<lparr>original = ''/r/f{b}{a}.txt'', dir = ''/r'', filename = ''f.txt'', tags = {''a'', ''b''}\<rparr>"

definition file_sorted :: file_info where
  "file_sorted =
     \<lparr>original = ''/r/f{a}{b}.txt'', dir = ''/r'', filename = ''f.txt'', tags = {''a'', ''b''}\<rparr>"

section \<open>Properties of the permutation engine\<close>

lemma picks_length: "(y, ys) \<in> set (picks xs) \<Longrightarrow> Suc (length ys) = length xs"
  by (induction xs arbitrary: y ys) auto

lemma length_picks: "length (picks xs) = length xs"
  by (induction xs) auto

lemma picks_mset: "(y, ys) \<in> set (picks xs) \<Longrightarrow> mset xs = add_mset y (mset ys)"
  by (induction xs arbitrary: y ys) auto

lemma map_fst_picks: "map fst (picks xs) = xs"
  by (induction xs) (auto simp: comp_def case_prod_beta)

lemma sum_list_const:
  "(\<And>x. x \<in> set xs \<Longrightarrow> f x = c) \<Longrightarrow> sum_list (map f xs) = length xs * c"
  by (induction xs) auto

lemma length_permutations: "length (permutations xs) = fact (length xs)"
proof (induction xs rule: permutations.induct)
  case (1 xs)
  show ?case
  proof (cases "xs = []")
    case True
    then show ?thesis by (simp add: permutations.simps)
  next
    case False
    have "\<And>p. p \<in> set (picks xs) \<Longrightarrow>
        length (case p of (y, ys) \<Rightarrow> map ((#) y) (permutations ys)) = fact (length xs - 1)"
    proof -
      fix p assume p: "p \<in> set (picks xs)"
      obtain y ys where pe: "p = (y, ys)" by (cases p)
      with p have "length (permutations ys) = fact (length ys)" using 1 False by simp
      moreover have "length ys = length xs - 1" using p pe picks_length by fastforce
      ultimately show "length (case p of (y, ys) \<Rightarrow> map ((#) y) (permutations ys)) = fact (length xs - 1)"
        using pe by auto
    qed
    then have "sum_list (map (\<lambda>p. length (case p of (y, ys) \<Rightarrow> map ((#) y) (permutations ys))) (picks xs))
        = length (picks xs) * fact (length xs - 1)"
      by (rule sum_list_const)
    moreover have "length xs * fact (length xs - 1) = (fact (length xs) :: nat)"
      using False by (cases xs) auto
    ultimately show ?thesis
      using False by (subst permutations.simps) (simp add: length_concat comp_def length_picks)
  qed
qed

lemma permutations_mset: "p \<in> set (permutations xs) \<Longrightarrow> mset p = mset xs"
proof (induction xs arbitrary: p rule: permutations.induct)
  case (1 xs)
  show ?case
  proof (cases "xs = []")
    case True
    then show ?thesis using 1(2) by (simp add: permutations.simps)
  next
    case False
    from 1(2) False obtain y ys q where
      "(y, ys) \<in> set (picks xs)" "q \<in> set (permutations ys)" "p = y # q"
      by (subst (asm) permutations.simps) auto
    then show ?thesis using 1(1)[OF False, of "(y, ys)" y ys q] picks_mset by fastforce
  qed
qed

lemma permutations_complete: "mset p = mset xs \<Longrightarrow> p \<in> set (permutations xs)"
proof (induction xs arbitrary: p rule: permutations.induct)
  case (1 xs)
  show ?case
  proof (cases "xs = []")
    case True
    then show ?thesis using 1(2) by (simp add: permutations.simps)
  next
    case False
    with 1(2) obtain y q where p: "p = y # q" by (cases p) auto
    with 1(2) have "y \<in> set xs" by (metis list.set_intros(1) mset_eq_setD)
    then have "y \<in> set (map fst (picks xs))" by (simp add: map_fst_picks)
    then obtain ys where pk: "(y, ys) \<in> set (picks xs)" by auto
    have "mset q = mset ys" using picks_mset [OF pk] 1(2) p by simp
    then have "q \<in> set (permutations ys)" using 1(1) [OF False pk refl] by simp
    then show ?thesis using pk p False by (subst permutations.simps) force
  qed
qed

lemma picks_distinct: "(y, ys) \<in> set (picks xs) \<Longrightarrow> distinct xs \<Longrightarrow> distinct ys"
proof -
  assume a: "(y, ys) \<in> set (picks xs)" and d: "distinct xs"
  have "mset xs = mset (y # ys)" using picks_mset [OF a] by simp
  then have "distinct (y # ys)" using d mset_eq_imp_distinct_iff by blast
  then show ?thesis by simp
qed

lemma distinct_blocks:
  "distinct (map fst ps) \<Longrightarrow> (\<And>y ys. (y, ys) \<in> set ps \<Longrightarrow> distinct (f ys)) \<Longrightarrow>
   distinct (concat (map (\<lambda>(y, ys). map ((#) y) (f ys)) ps))"
proof (induction ps)
  case Nil
  then show ?case by simp
next
  case (Cons p ps)
  obtain y ys where p: "p = (y, ys)" by (cases p)
  have "distinct (map ((#) y) (f ys))"
    using Cons.prems(2) [of y ys] p by (simp add: distinct_map)
  moreover have "distinct (concat (map (\<lambda>(y, ys). map ((#) y) (f ys)) ps))"
    using Cons by auto
  moreover have "set (map ((#) y) (f ys)) \<inter> set (concat (map (\<lambda>(y, ys). map ((#) y) (f ys)) ps)) = {}"
    using Cons.prems(1) p by force
  ultimately show ?case using p by simp
qed

lemma distinct_permutations: "distinct xs \<Longrightarrow> distinct (permutations xs)"
proof (induction xs rule: permutations.induct)
  case (1 xs)
  show ?case
  proof (cases "xs = []")
    case True
    then show ?thesis by (simp add: permutations.simps)
  next
    case False
    have "distinct (concat (map (\<lambda>(y, ys). map ((#) y) (permutations ys)) (picks xs)))"
    proof (rule distinct_blocks)
      show "distinct (map fst (picks xs))" using 1(2) by (simp add: map_fst_picks)
    next
      fix y ys assume a: "(y, ys) \<in> set (picks xs)"
      then show "distinct (permutations ys)"
        using 1(1) [OF False a refl] picks_distinct [OF a 1(2)] by simp
    qed
    then show ?thesis using False by (subst permutations.simps) simp
  qed
qed

lemma sorted_tags_props:
  "finite T \<Longrightarrow> set (sorted_tags T) = T \<and> distinct (sorted_tags T) \<and> sorted (sorted_tags T)
     \<and> length (sorted_tags T) = card T"
  by (simp add: sorted_tags_def)

text \<open>
  C4: for a tag set of \<open>N \<ge> 1\<close> tags, the engine in flat mode returns \<open>N!\<close> placement
  paths, no two of them equal, each a permutation of the sorted tag list; they are all
  the orderings of the tag set.
\<close>

theorem permute_flat_all_orderings:
  assumes "card T = N" and "1 \<le> N"
  shows "length (permute (sorted_tags T) False) = fact N
       \<and> distinct (permute (sorted_tags T) False)
       \<and> (\<forall>p \<in> set (permute (sorted_tags T) False). mset p = mset (sorted_tags T))
       \<and> set (permute (sorted_tags T) False) = {p. distinct p \<and> set p = T}"
proof -
  have fin: "finite T" using assms by (metis card.infinite not_one_le_zero)
  note st = sorted_tags_props [OF fin]
  have "length (permute (sorted_tags T) False) = fact N"
    using st assms(1) by (simp add: permute_def length_permutations)
  moreover have "distinct (permute (sorted_tags T) False)"
    using st by (simp add: permute_def distinct_permutations)
  moreover have "\<forall>p \<in> set (permute (sorted_tags T) False). mset p = mset (sorted_tags T)"
    by (simp add: permute_def permutations_mset)
  moreover have "set (permute (sorted_tags T) False) = {p. distinct p \<and> set p = T}"
  proof -
    have eq: "\<And>p. mset p = mset (sorted_tags T) \<longleftrightarrow> distinct p \<and> set p = T"
      using st by (metis mset_eq_imp_distinct_iff mset_eq_setD set_eq_iff_mset_eq_distinct)
    have "\<And>p. p \<in> set (permutations (sorted_tags T)) \<longleftrightarrow> mset p = mset (sorted_tags T)"
      using permutations_mset permutations_complete by blast
    with eq show ?thesis unfolding permute_def by blast
  qed
  ultimately show ?thesis by blast
qed

theorem permute_flat_all_orderings_witness:
  "card {''foo'', ''bar''} = (2::nat) \<and> (1::nat) \<le> 2
   \<and> permute (sorted_tags {''foo'', ''bar''}) False = [[''bar'', ''foo''], [''foo'', ''bar'']]
   \<and> length (permute (sorted_tags {''foo'', ''bar''}) False) = fact 2
   \<and> distinct (permute (sorted_tags {''foo'', ''bar''}) False)"
proof -
  have c: "card {''foo'', ''bar''} = (2::nat)" by simp
  have e: "permute (sorted_tags {''foo'', ''bar''}) False = [[''bar'', ''foo''], [''foo'', ''bar'']]"
    by code_simp
  show ?thesis using permute_flat_all_orderings [OF c] c e by simp
qed

text \<open>
  C5: the tags are sorted before they are permuted, so the placement paths depend on
  the content of the tag set only: whatever order the set is enumerated in, the sorted
  list is the same ascending list and the engine returns the same list of paths.
\<close>

theorem permute_deterministic:
  assumes "distinct xs" and "distinct ys" and "set xs = set ys"
  shows "sort xs = sorted_tags (set xs) \<and> sort ys = sorted_tags (set xs) \<and> sorted (sort xs)
       \<and> permute (sort xs) tree = permute (sort ys) tree"
proof -
  have "sort xs = sorted_tags (set xs)"
    using assms(1) by (simp add: sorted_tags_def sorted_list_of_set_sort_remdups distinct_remdups_id)
  moreover have "sort ys = sorted_tags (set xs)"
    using assms(2,3) by (simp add: sorted_tags_def sorted_list_of_set_sort_remdups distinct_remdups_id)
  moreover have "sorted (sort xs)" by simp
  ultimately show ?thesis by metis
qed

theorem permute_deterministic_witness:
  "distinct [''foo'', ''bar''] \<and> distinct [''bar'', ''foo''] \<and> set [''foo'', ''bar''] = set [''bar'', ''foo'']
   \<and> permute (sort [''foo'', ''bar'']) False = permute (sort [''bar'', ''foo'']) False"
proof -
  have a: "distinct [''foo'', ''bar'']" and b: "distinct [''bar'', ''foo'']"
    and c: "set [''foo'', ''bar''] = set [''bar'', ''foo'']" by auto
  show ?thesis using permute_deterministic [OF a b c] a b c by blast
qed

section \<open>Add followed by remove\<close>

lemma str_split_nonempty: "str_split c s \<noteq> []"
  by (induction s) (auto split: list.splits)

text \<open>
  C6, as stated: adding a tag list and then removing the same list gives back the
  original tag set.  It fails for a file that already carries one of the tags: the
  file tagged \<open>a\<close> loses its tag under \<^verbatim>\<open>add a\<close> followed by \<^verbatim>\<open>remove a\<close>.
\<close>

theorem add_remove_not_restoring:
  "remove_handler ''a'' (add_handler ''a'' {''a''}) \<noteq> {''a''}"
  by (simp add: remove_handler_def add_handler_def tag_list_of_def)

text \<open>
  C6, amended: for every tag set and every tag list, add followed by remove of the
  same list yields the original tag set without the tags of the list; this is the
  original tag set exactly when the file carried none of the listed tags before.
\<close>

theorem add_then_remove:
  "remove_handler TAGS (add_handler TAGS T) = T - set (tag_list_of TAGS) \<and>
   (remove_handler TAGS (add_handler TAGS T) = T \<longleftrightarrow> T \<inter> set (tag_list_of TAGS) = {})"
  by (auto simp: remove_handler_def add_handler_def)

theorem add_then_remove_witness:
  "{''x''} \<inter> set (tag_list_of ''a,b'') = {} \<and>
   remove_handler ''a,b'' (add_handler ''a,b'' {''x''}) = {''x''}"
  using add_then_remove [of "''a,b''" "{''x''}"]
  by (simp add: tag_list_of_def)

section \<open>Properties of the index\<close>

lemma index_get_append:
  "index_get (index_append idx path f) key =
     (if key = path then index_get idx path @ [f] else index_get idx key)"
  by (induction idx path f rule: index_append.induct) (auto simp: index_get_def)

lemma keys_index_append:
  "set (map fst (index_append idx path f)) = insert path (set (map fst idx))"
  by (induction idx path f rule: index_append.induct) auto

lemma index_get_fold_perms:
  "index_get (foldl (\<lambda>idx perm. index_append idx (index_key output perm f) f) idx perms) key =
     index_get idx key @ concat (map (\<lambda>perm. if index_key output perm f = key then [f] else []) perms)"
  by (induction perms arbitrary: idx) (auto simp: index_get_append)

lemma index_get_fold_files:
  "index_get (foldl (index_file permute_fn output tree) idx file_list) key =
     index_get idx key @ claimants permute_fn output tree file_list key"
  by (induction file_list arbitrary: idx)
     (auto simp: claimants_def index_file_def index_get_fold_perms)

lemma index_get_build:
  "index_get (build_index permute_fn output tree file_list) key =
     claimants permute_fn output tree file_list key"
proof -
  have "index_get [] key = []" by (simp add: index_get_def)
  then show ?thesis by (simp add: build_index_def index_get_fold_files)
qed

lemma index_append_nonempty:
  "\<forall>(k, fs) \<in> set idx. fs \<noteq> [] \<Longrightarrow> \<forall>(k, fs) \<in> set (index_append idx path f). fs \<noteq> []"
  by (induction idx path f rule: index_append.induct) auto

lemma map_of_key: "key \<in> set (map fst idx) \<Longrightarrow> map_of idx key = Some (index_get idx key)"
  by (cases "map_of idx key") (auto simp: index_get_def map_of_eq_None_iff)

lemma claimants_member:
  "f \<in> set file_list \<Longrightarrow> perm \<in> set (permute_fn (sorted_tags (tags f)) tree) \<Longrightarrow>
   f \<in> set (claimants permute_fn output tree file_list (index_key output perm f))"
  by (auto simp: claimants_def)

lemma claimants_only:
  "g \<in> set (claimants permute_fn output tree file_list key) \<Longrightarrow>
   g \<in> set file_list \<and> (\<exists>perm \<in> set (permute_fn (sorted_tags (tags g)) tree). index_key output perm g = key)"
  by (auto simp: claimants_def split: if_splits)

section \<open>Properties of the link loop\<close>

lemma link_files_perform:
  "link_files env debug verbose abspath parent files w =
     perform_links env debug verbose
       (map (\<lambda>f. (path_join parent [disambiguated abspath f], original f)) files) w"
  by (induction files arbitrary: w) (auto split: prod.splits option.splits)

lemma perform_links_single:
  "perform_links env debug verbose [(dst, src)] w = link_step env debug verbose src dst w"
  by (auto split: prod.splits option.splits)

lemma length_key_links: "length (key_links abspath key files) = length files"
  by (simp add: key_links_def Let_def)

lemma process_key_links:
  assumes "map_of idx key = Some files"
  shows "process_key env debug verbose abspath idx key cnt w =
     (case (if \<not> debug then do_makedirs env (fst (path_split key)) w else (None, w)) of
        (Some e, w1) \<Rightarrow> (Some e, cnt + length files, w1)
      | (None, w1) \<Rightarrow>
          (case perform_links env debug verbose (key_links abspath key files) w1 of
             (r, w2) \<Rightarrow> (r, cnt + length files, w2)))"
  using assms
  by (simp add: process_key_def key_links_def Let_def link_files_perform perform_links_single
           split: prod.splits option.splits del: perform_links.simps)

lemma link_step_debug:
  "link_step env True verbose src dst w =
     (None, if verbose then echo (dst @ '' -> '' @ src) w else w)"
  by (simp add: link_step_def)

lemma perform_links_debug:
  "perform_links env True verbose ls w = (r, w') \<Longrightarrow>
   r = None \<and> fs_state w' = fs_state w \<and> calls w' = calls w"
  by (induction ls arbitrary: w) (auto simp: link_step_debug echo_def)

lemma link_step_ok:
  "link_step env debug verbose src dst w = (None, w') \<Longrightarrow>
   console w' = console w @ (if verbose then [link_line (dst, src)] else []) \<and>
   calls w' = calls w @ (if debug then [] else [link_call (dst, src)])"
  by (auto simp: link_step_def do_symlink_def echo_def link_line_def link_call_def Let_def
           split: if_splits prod.splits)

lemma perform_links_ok:
  "perform_links env debug verbose ls w = (None, w') \<Longrightarrow>
   console w' = console w @ (if verbose then map link_line ls else []) \<and>
   calls w' = calls w @ (if debug then [] else map link_call ls)"
proof (induction ls arbitrary: w)
  case Nil
  then show ?case by simp
next
  case (Cons l ls)
  from Cons.prems obtain w1 where
    s: "link_step env debug verbose (snd l) (fst l) w = (None, w1)" and
    r: "perform_links env debug verbose ls w1 = (None, w')"
    by (auto split: prod.splits option.splits)
  from link_step_ok [OF s] Cons.IH [OF r] show ?case by auto
qed

lemma link_step_quiet:
  "link_step env debug False src dst w = (r, w') \<Longrightarrow> console w' = console w"
  by (auto simp: link_step_def do_symlink_def split: if_splits prod.splits)

lemma perform_links_quiet:
  "perform_links env debug False ls w = (r, w') \<Longrightarrow> console w' = console w"
proof (induction ls arbitrary: w)
  case Nil
  then show ?case by simp
next
  case (Cons l ls)
  show ?case
  proof (cases "link_step env debug False (snd l) (fst l) w")
    case (Pair r1 w1)
    then show ?thesis
      using Cons.prems Cons.IH link_step_quiet [OF Pair]
      by (cases r1) auto
  qed
qed

lemma do_makedirs_effect:
  "do_makedirs env p w = (r, w1) \<Longrightarrow> console w1 = console w \<and> calls w1 = calls w @ [Makedirs p]"
  by (auto simp: do_makedirs_def split: prod.splits)

lemma process_key_ok:
  assumes "key \<in> set (map fst idx)"
    and "process_key env debug verbose abspath idx key cnt w = (None, cnt', w')"
  shows "cnt' = cnt + length (key_links abspath key (index_get idx key)) \<and>
     console w' = console w @ (if verbose then map link_line (key_links abspath key (index_get idx key)) else []) \<and>
     calls w' = calls w @ (if debug then []
                else Makedirs (fst (path_split key)) # map link_call (key_links abspath key (index_get idx key)))"
proof -
  let ?files = "index_get idx key"
  note pk = process_key_links [OF map_of_key [OF assms(1)], of env debug verbose abspath cnt w]
  show ?thesis
  proof (cases debug)
    case True
    with pk assms(2) have "perform_links env True verbose (key_links abspath key ?files) w = (None, w')"
      and "cnt' = cnt + length ?files"
      by (auto split: prod.splits)
    with perform_links_ok [of env True verbose _ w w'] True show ?thesis
      by (simp add: length_key_links)
  next
    case False
    with pk assms(2) obtain w1 where
      m: "do_makedirs env (fst (path_split key)) w = (None, w1)" and
      p: "perform_links env False verbose (key_links abspath key ?files) w1 = (None, w')" and
      c: "cnt' = cnt + length ?files"
      by (auto split: prod.splits option.splits)
    from do_makedirs_effect [OF m] perform_links_ok [OF p] c False show ?thesis
      by (simp add: length_key_links)
  qed
qed

lemma process_keys_ok:
  assumes "set keys \<subseteq> set (map fst idx)"
    and "process_keys env debug verbose abspath idx keys cnt w = (None, cnt', w')"
  shows "cnt' = cnt + length (concat (map (\<lambda>key. key_links abspath key (index_get idx key)) keys)) \<and>
     console w' = console w @
        (if verbose then map link_line (concat (map (\<lambda>key. key_links abspath key (index_get idx key)) keys)) else []) \<and>
     calls w' = calls w @
        (if debug then []
         else concat (map (\<lambda>key. Makedirs (fst (path_split key))
                                 # map link_call (key_links abspath key (index_get idx key))) keys))"
  using assms
proof (induction keys arbitrary: cnt w)
  case Nil
  then show ?case by simp
next
  case (Cons key keys)
  from Cons.prems(2) obtain c1 w1 where
    k: "process_key env debug verbose abspath idx key cnt w = (None, c1, w1)" and
    r: "process_keys env debug verbose abspath idx keys c1 w1 = (None, cnt', w')"
    by (auto split: prod.splits option.splits)
  have "key \<in> set (map fst idx)" and sub: "set keys \<subseteq> set (map fst idx)"
    using Cons.prems(1) by auto
  from process_key_ok [OF this(1) k] Cons.IH [OF sub r] show ?case by auto
qed

lemma process_key_debug:
  assumes "key \<in> set (map fst idx)"
    and "process_key env True verbose abspath idx key cnt w = (r, cnt', w')"
  shows "r = None \<and> fs_state w' = fs_state w \<and> calls w' = calls w"
  using assms(2) perform_links_debug [of env verbose "key_links abspath key (index_get idx key)" w]
  by (auto simp: process_key_links [OF map_of_key [OF assms(1)]] split: prod.splits)

lemma process_keys_debug:
  assumes "set keys \<subseteq> set (map fst idx)"
    and "process_keys env True verbose abspath idx keys cnt w = (r, cnt', w')"
  shows "r = None \<and> fs_state w' = fs_state w \<and> calls w' = calls w"
  using assms
proof (induction keys arbitrary: cnt w)
  case Nil
  then show ?case by simp
next
  case (Cons key keys)
  obtain r1 c1 w1 where k: "process_key env True verbose abspath idx key cnt w = (r1, c1, w1)"
    by (metis prod_cases3)
  have kin: "key \<in> set (map fst idx)" and sub: "set keys \<subseteq> set (map fst idx)"
    using Cons.prems(1) by auto
  from process_key_debug [OF kin k] have r1: "r1 = None" and f: "fs_state w1 = fs_state w"
    and c: "calls w1 = calls w" by auto
  from Cons.prems(2) k r1 have "process_keys env True verbose abspath idx keys c1 w1 = (r, cnt', w')"
    by simp
  from Cons.IH [OF sub this] f c show ?case by simp
qed

lemma process_key_quiet:
  "process_key env debug False abspath idx key cnt w = (r, cnt', w') \<Longrightarrow> console w' = console w"
proof (cases "map_of idx key")
  case None
  assume "process_key env debug False abspath idx key cnt w = (r, cnt', w')"
  with None show ?thesis by (simp add: process_key_def)
next
  case (Some files)
  assume a: "process_key env debug False abspath idx key cnt w = (r, cnt', w')"
  show ?thesis
  proof (cases debug)
    case True
    with a show ?thesis
      using perform_links_quiet [of env True "key_links abspath key files" w]
      by (auto simp: process_key_links [OF Some] split: prod.splits)
  next
    case False
    obtain r1 w1 where m: "do_makedirs env (fst (path_split key)) w = (r1, w1)" by (cases "do_makedirs env (fst (path_split key)) w")
    note e = do_makedirs_effect [OF m]
    show ?thesis
    proof (cases r1)
      case None
      with a False m e show ?thesis
        using perform_links_quiet [of env False "key_links abspath key files" w1]
        by (auto simp: process_key_links [OF Some] split: prod.splits)
    next
      case (Some err)
      with a False m e show ?thesis
        by (auto simp: process_key_links [OF \<open>map_of idx key = Some files\<close>])
    qed
  qed
qed

lemma process_keys_quiet:
  "process_keys env debug False abspath idx keys cnt w = (r, cnt', w') \<Longrightarrow> console w' = console w"
proof (induction keys arbitrary: cnt w)
  case Nil
  then show ?case by simp
next
  case (Cons key keys)
  obtain r1 c1 w1 where k: "process_key env debug False abspath idx key cnt w = (r1, c1, w1)"
    by (metis prod_cases3)
  note q = process_key_quiet [OF k]
  show ?case
  proof (cases r1)
    case None
    with Cons.prems k have "process_keys env debug False abspath idx keys c1 w1 = (r, cnt', w')" by simp
    from Cons.IH [OF this] q show ?thesis by simp
  next
    case (Some e)
    with Cons.prems k q show ?thesis by simp
  qed
qed


section \<open>Properties of the index command\<close>

lemma symlinks_of_append: "symlinks_of (cs @ ds) = symlinks_of cs @ symlinks_of ds"
  by (induction cs rule: symlinks_of.induct) auto

lemma symlinks_of_link_calls: "symlinks_of (map link_call ls) = ls"
  by (induction ls) (auto simp: link_call_def)

lemma symlinks_of_key_calls:
  "symlinks_of (concat (map (\<lambda>key. Makedirs (p key) # map link_call (g key)) keys)) = concat (map g keys)"
  by (induction keys) (auto simp: symlinks_of_append symlinks_of_link_calls)

lemma cli_index_passed:
  assumes "destination_check env fs0 output = None"
  shows "cli_index env all debug recursive tree verbose path output fs0 =
     (case process_keys env debug verbose (os_path_abspath env path)
             (index_of env all recursive tree path output fs0)
             (sort (map fst (index_of env all recursive tree path output fs0))) 0
             \<lparr>fs_state = fs0, calls = [], console = []\<rparr> of
        (Some e, cnt, w) \<Rightarrow> (Some e, w)
      | (None, cnt, w) \<Rightarrow> (None, report_count debug verbose cnt w))"
  using assms by (simp add: cli_index_def index_of_def Let_def)

lemma report_count_effect:
  "fs_state (report_count debug verbose cnt w) = fs_state w \<and>
   calls (report_count debug verbose cnt w) = calls w \<and>
   console (report_count debug verbose cnt w) =
     console w @ (if verbose \<and> cnt > 0 then summary debug cnt else [])"
  by (simp add: report_count_def)

text \<open>What the lines printed by a run are, given the links it stands for.\<close>

lemma report_lines:
  assumes "cnt = length ls" and "console w1 = (if verbose then map link_line ls else [])"
  shows "console (report_count debug verbose cnt w1) =
     (if verbose then map link_line ls @ (if ls = [] then [] else summary debug (length ls)) else [])"
  using assms by (simp add: report_count_effect)

lemma cli_index_success:
  assumes "cli_index env all debug recursive tree verbose path output fs0 = (None, w)"
  shows "console w =
       (if verbose
        then map link_line (planned_links (os_path_abspath env path) (index_of env all recursive tree path output fs0))
             @ (if planned_links (os_path_abspath env path) (index_of env all recursive tree path output fs0) = [] then []
                else summary debug (length (planned_links (os_path_abspath env path) (index_of env all recursive tree path output fs0))))
        else [])
     \<and> symlinks_of (calls w) =
       (if debug then [] else planned_links (os_path_abspath env path) (index_of env all recursive tree path output fs0))"
proof -
  let ?idx = "index_of env all recursive tree path output fs0"
  let ?abs = "os_path_abspath env path"
  let ?w0 = "\<lparr>fs_state = fs0, calls = [], console = []\<rparr>"
  have dc: "destination_check env fs0 output = None"
    using assms by (cases "destination_check env fs0 output") (auto simp: cli_index_def Let_def)
  from assms obtain cnt w1 where
    pk: "process_keys env debug verbose ?abs ?idx (sort (map fst ?idx)) 0 ?w0 = (None, cnt, w1)" and
    w: "w = report_count debug verbose cnt w1"
    by (auto simp: cli_index_passed [OF dc] split: prod.splits option.splits)
  have sub: "set (sort (map fst ?idx)) \<subseteq> set (map fst ?idx)" by simp
  note ok = process_keys_ok [OF sub pk]
  have cnt: "cnt = length (planned_links ?abs ?idx)"
    using ok by (simp add: planned_links_def)
  have con: "console w1 = (if verbose then map link_line (planned_links ?abs ?idx) else [])"
    using ok by (simp add: planned_links_def)
  have cal: "symlinks_of (calls w1) = (if debug then [] else planned_links ?abs ?idx)"
    using ok by (simp add: planned_links_def symlinks_of_key_calls)
  show ?thesis
    using report_lines [OF cnt con] cal w report_count_effect [of debug verbose cnt w1] by simp
qed

lemma cli_index_debug:
  assumes "cli_index env all True recursive tree verbose path output fs0 = (r, w)"
  shows "fs_state w = fs0 \<and> calls w = [] \<and> (destination_check env fs0 output = None \<longrightarrow> r = None)"
proof (cases "destination_check env fs0 output")
  case (Some e)
  with assms show ?thesis by (auto simp: cli_index_def Let_def)
next
  case None
  let ?idx = "index_of env all recursive tree path output fs0"
  let ?abs = "os_path_abspath env path"
  let ?w0 = "\<lparr>fs_state = fs0, calls = [], console = []\<rparr>"
  obtain r1 cnt w1 where
    pk: "process_keys env True verbose ?abs ?idx (sort (map fst ?idx)) 0 ?w0 = (r1, cnt, w1)"
    by (metis prod_cases3)
  have sub: "set (sort (map fst ?idx)) \<subseteq> set (map fst ?idx)" by simp
  from process_keys_debug [OF sub pk] have r1: "r1 = None" and f: "fs_state w1 = fs0"
    and c: "calls w1 = []" by auto
  from assms pk r1 have res: "r = None" "w = report_count True verbose cnt w1"
    by (auto simp: cli_index_passed [OF None])
  then show ?thesis using f c by (simp add: report_count_effect)
qed

text \<open>The loop of \<^verbatim>\<open>src/cli.py\<close> is the loop of \<^verbatim>\<open>tag/cli.py\<close> under \<^verbatim>\<open>--debug\<close>.\<close>

lemma link_files_debug_echo:
  "link_files env True verbose abspath parent files w = (None, echo_files verbose abspath parent files w)"
  by (induction files arbitrary: w) (auto simp: link_step_debug echo_step_def)

lemma echo_key_process:
  "echo_key verbose abspath idx key cnt w = process_key env True verbose abspath idx key cnt w"
  by (simp add: echo_key_def process_key_def link_files_debug_echo link_step_debug echo_step_def Let_def
           split: option.splits)

lemma echo_keys_process:
  "echo_keys verbose abspath idx keys cnt w = process_keys env True verbose abspath idx keys cnt w"
  by (induction keys arbitrary: cnt w)
     (auto simp: echo_key_process [of _ _ _ _ _ _ env] split: prod.splits option.splits)

lemma cli_index_src_run:
  assumes "cli_index_src env permute1 all debug recursive verbose path output fs0 = (r, w)"
  shows "r = None \<and> fs_state w = fs0 \<and> calls w = []
     \<and> console w =
       (if verbose
        then map link_line (planned_links (os_path_abspath env path)
               (build_index (\<lambda>tag_list tree. permute1 tag_list) output False
                  (tagged_files (util_find_files env fs0 (os_path_abspath env path) recursive all))))
             @ (if planned_links (os_path_abspath env path)
                    (build_index (\<lambda>tag_list tree. permute1 tag_list) output False
                       (tagged_files (util_find_files env fs0 (os_path_abspath env path) recursive all))) = []
                then []
                else summary debug (length (planned_links (os_path_abspath env path)
                    (build_index (\<lambda>tag_list tree. permute1 tag_list) output False
                       (tagged_files (util_find_files env fs0 (os_path_abspath env path) recursive all))))))
        else [])"
proof -
  let ?abs = "os_path_abspath env path"
  let ?idx = "build_index (\<lambda>tag_list tree. permute1 tag_list) output False
                (tagged_files (util_find_files env fs0 ?abs recursive all))"
  let ?w0 = "\<lparr>fs_state = fs0, calls = [], console = []\<rparr>"
  obtain r1 cnt w1 where
    pk: "process_keys env True verbose ?abs ?idx (sort (map fst ?idx)) 0 ?w0 = (r1, cnt, w1)"
    by (metis prod_cases3)
  have sub: "set (sort (map fst ?idx)) \<subseteq> set (map fst ?idx)" by simp
  from process_keys_debug [OF sub pk] have r1: "r1 = None" and f: "fs_state w1 = fs0"
    and c: "calls w1 = []" by auto
  note ok = process_keys_ok [OF sub pk [unfolded r1]]
  have cnt: "cnt = length (planned_links ?abs ?idx)"
    using ok by (simp add: planned_links_def)
  have con: "console w1 = (if verbose then map link_line (planned_links ?abs ?idx) else [])"
    using ok by (simp add: planned_links_def)
  from assms pk r1 have res: "r = None" "w = report_count debug verbose cnt w1"
    by (auto simp: cli_index_src_def Let_def echo_keys_process [of _ _ _ _ _ _ env])
  show ?thesis
    using res f c report_lines [OF cnt con] by (simp add: report_count_effect)
qed

lemma cli_index_src_frame:
  "fst (cli_index_src env permute1 all debug recursive verbose path output fs0) = None
   \<and> fs_state (snd (cli_index_src env permute1 all debug recursive verbose path output fs0)) = fs0
   \<and> calls (snd (cli_index_src env permute1 all debug recursive verbose path output fs0)) = []"
proof -
  obtain r w where rw: "cli_index_src env permute1 all debug recursive verbose path output fs0 = (r, w)"
    by (cases "cli_index_src env permute1 all debug recursive verbose path output fs0")
  note t = cli_index_src_run [OF rw]
  have "r = None" by (rule t [THEN conjunct1])
  moreover have "fs_state w = fs0" by (rule t [THEN conjunct2, THEN conjunct1])
  moreover have "calls w = []" by (rule t [THEN conjunct2, THEN conjunct2, THEN conjunct1])
  ultimately show ?thesis by (simp add: rw)
qed



subsection \<open>The keys of the index\<close>

text \<open>
  C1, as stated: the key of a file under a placement path ends in the file's bare
  file name, tags stripped.  It does not: for \<^verbatim>\<open>a/x{foo}.txt\<close> and the path \<^verbatim>\<open>foo\<close>
  the index has nothing under \<^verbatim>\<open>OUTPUT/foo/x.txt\<close>; the file is under
  \<^verbatim>\<open>OUTPUT/foo/x{foo}.txt\<close>.
\<close>

theorem index_key_bare_filename_absent:
  "file_a \<in> set (tagged_files (util_find_files demo_env [] (os_path_abspath demo_env ''/r'') False False))
   \<and> [''foo''] \<in> set (util_permute demo_env (sorted_tags (tags file_a)) False)
   \<and> index_get (index_of demo_env False False False ''/r'' ''OUTPUT'' [])
        (path_join ''OUTPUT'' ([''foo''] @ [filename file_a])) = []
   \<and> index_get (index_of demo_env False False False ''/r'' ''OUTPUT'' [])
        (path_join ''OUTPUT'' ([''foo''] @ [''x{foo}.txt''])) = [file_a, file_b]"
  by code_simp

text \<open>
  C1, amended: for every file found that has at least one tag and every placement path
  the permutation engine returns for its sorted tags, the key is the output root joined
  with the segments of the placement path and with the last component of the file's
  original path (the name as found, tags included), and the file is in the index entry
  of that key.  The entry of any key lists the files that claim it once per claiming
  placement path, in the order the files were found.  Both \<^verbatim>\<open>_index\<close> commands build
  their index with \<^verbatim>\<open>build_index\<close> from the tagged files found.
\<close>

theorem index_entries:
  assumes "f \<in> set found"
    and "card (tags f) > 0"
    and "perm \<in> set (permute_fn (sorted_tags (tags f)) tree)"
  shows "index_key output perm f = path_join output (perm @ [snd (path_split (original f))])
     \<and> f \<in> set (index_get (build_index permute_fn output tree (tagged_files found)) (index_key output perm f))
     \<and> map_of (build_index permute_fn output tree (tagged_files found)) (index_key output perm f)
         = Some (index_get (build_index permute_fn output tree (tagged_files found)) (index_key output perm f))
     \<and> index_get (build_index permute_fn output tree (tagged_files found)) key
         = claimants permute_fn output tree (tagged_files found) key"
proof -
  let ?files = "tagged_files found"
  let ?idx = "build_index permute_fn output tree ?files"
  have get: "\<And>k. index_get ?idx k = claimants permute_fn output tree ?files k"
    by (simp add: index_get_build)
  have fin: "f \<in> set ?files" using assms(1,2) by (simp add: tagged_files_def)
  have mem: "f \<in> set (index_get ?idx (index_key output perm f))"
    using claimants_member [of f ?files perm permute_fn tree "output"] fin assms(3) get by simp
  then have "map_of ?idx (index_key output perm f) = Some (index_get ?idx (index_key output perm f))"
    by (cases "map_of ?idx (index_key output perm f)") (auto simp: index_get_def)
  then show ?thesis using get mem by (simp add: index_key_def)
qed

theorem index_entries_witness:
  "file_a \<in> set [file_a, file_b]
   \<and> card (tags file_a) > 0
   \<and> [''foo''] \<in> set (permute (sorted_tags (tags file_a)) False)
   \<and> index_key ''OUTPUT'' [''foo''] file_a = ''OUTPUT/foo/x{foo}.txt''
   \<and> file_a \<in> set (index_get (build_index permute ''OUTPUT'' False (tagged_files [file_a, file_b]))
                       ''OUTPUT/foo/x{foo}.txt'')"
proof -
  have a: "file_a \<in> set [file_a, file_b]" by simp
  have b: "card (tags file_a) > 0" by (simp add: file_a_def)
  have c: "[''foo''] \<in> set (permute (sorted_tags (tags file_a)) False)" by code_simp
  have k: "index_key ''OUTPUT'' [''foo''] file_a = ''OUTPUT/foo/x{foo}.txt''" by code_simp
  have m: "file_a \<in> set (index_get (build_index permute ''OUTPUT'' False (tagged_files [file_a, file_b]))
              (index_key ''OUTPUT'' [''foo''] file_a))"
    using index_entries [of file_a "[file_a, file_b]" "[''foo'']" permute False "''OUTPUT''" "[]", OF a b c]
    by blast
  show ?thesis using a b c k m [unfolded k] by blast
qed

subsection \<open>A populated output directory\<close>

text \<open>
  C2, as stated: every invocation of the index command on an \<^verbatim>\<open>OUTPUT\<close> that exists and
  has an entry fails.  The command of \<^verbatim>\<open>src/cli.py\<close> does not: on such an \<^verbatim>\<open>OUTPUT\<close>
  it ends without an error.
\<close>

theorem index_src_accepts_populated_output:
  "os_path_exists demo_env [''OUTPUT'', ''OUTPUT/old''] ''OUTPUT''
   \<and> os_listdir demo_env [''OUTPUT'', ''OUTPUT/old''] ''OUTPUT'' = Inr [''OUTPUT/old'']
   \<and> cli_index_src demo_env (\<lambda>tag_list. permute tag_list False) False False False False ''/r'' ''OUTPUT''
        [''OUTPUT'', ''OUTPUT/old''] =
      (None, \<lparr>fs_state = [''OUTPUT'', ''OUTPUT/old''], calls = [], console = []\<rparr>)"
  by code_simp

text \<open>
  C2, amended: every invocation of the index command of \<^verbatim>\<open>tag/cli.py\<close> on an \<^verbatim>\<open>OUTPUT\<close>
  that exists and has at least one entry ends with the \<^verbatim>\<open>ClickException\<close> that reports
  the conflict, before any call that changes the file system and with nothing printed:
  no directory and no link is created.  The command of \<^verbatim>\<open>src/cli.py\<close> has no such
  check; it ends without an error there, and creates no link either, as it never
  changes the file system.
\<close>

theorem index_refuses_populated_output:
  assumes "os_path_exists env fs0 output" and "os_listdir env fs0 output = Inr (entry # entries)"
  shows "cli_index env all debug recursive tree verbose path output fs0 =
       (Some (ClickException (conflict_message output)), \<lparr>fs_state = fs0, calls = [], console = []\<rparr>)
     \<and> fst (cli_index_src env permute1 all debug recursive verbose path output fs0) = None
     \<and> fs_state (snd (cli_index_src env permute1 all debug recursive verbose path output fs0)) = fs0
     \<and> calls (snd (cli_index_src env permute1 all debug recursive verbose path output fs0)) = []"
proof -
  have "cli_index env all debug recursive tree verbose path output fs0 =
       (Some (ClickException (conflict_message output)), \<lparr>fs_state = fs0, calls = [], console = []\<rparr>)"
    using assms by (simp add: cli_index_def destination_check_def Let_def)
  then show ?thesis
    using cli_index_src_frame [of env permute1 all debug recursive verbose path "output" fs0] by simp
qed

theorem index_refuses_populated_output_witness:
  "os_path_exists demo_env [''OUTPUT'', ''OUTPUT/old''] ''OUTPUT''
   \<and> os_listdir demo_env [''OUTPUT'', ''OUTPUT/old''] ''OUTPUT'' = Inr [''OUTPUT/old'']
   \<and> cli_index demo_env False False False False True ''/r'' ''OUTPUT'' [''OUTPUT'', ''OUTPUT/old''] =
       (Some (ClickException (conflict_message ''OUTPUT'')),
        \<lparr>fs_state = [''OUTPUT'', ''OUTPUT/old''], calls = [], console = []\<rparr>)"
proof -
  have e: "os_path_exists demo_env [''OUTPUT'', ''OUTPUT/old''] ''OUTPUT''"
    and l: "os_listdir demo_env [''OUTPUT'', ''OUTPUT/old''] ''OUTPUT'' = Inr [''OUTPUT/old'']"
    by code_simp+
  have "cli_index demo_env False False False False True ''/r'' ''OUTPUT'' [''OUTPUT'', ''OUTPUT/old''] =
       (Some (ClickException (conflict_message ''OUTPUT'')),
        \<lparr>fs_state = [''OUTPUT'', ''OUTPUT/old''], calls = [], console = []\<rparr>)"
    by (rule index_refuses_populated_output [OF e l, THEN conjunct1])
  with e l show ?thesis by (intro conjI)
qed

subsection \<open>The names of the links\<close>




subsection \<open>What a run prints\<close>

text \<open>
  C7, as stated: the index command reports every link and a final count.  Without
  \<^verbatim>\<open>--verbose\<close> it prints nothing: the run below creates two links and its console
  stays empty.
\<close>

theorem index_silent_without_verbose:
  "cli_index demo_env False False False False False ''/r'' ''OUTPUT'' [] =
     (None, \<lparr>fs_state = [''OUTPUT/foo/x-b.txt'', ''OUTPUT/foo/x-a.txt'', ''OUTPUT/foo''],
              calls = [Makedirs ''OUTPUT/foo'', Symlink ''/r/a/x{foo}.txt'' ''OUTPUT/foo/x-a.txt'',
                       Symlink ''/r/b/x{foo}.txt'' ''OUTPUT/foo/x-b.txt''],
              console = []\<rparr>)"
  by code_simp

text \<open>
  C7, amended: under \<^verbatim>\<open>--verbose\<close>, a run of the index command that ends without an
  error has printed one line \<^verbatim>\<open>destination -> source\<close> per link, the keys taken in
  ascending order and the files of a key in the order of its entry, followed, when at
  least one link was counted, by an empty line and the line with the count; without
  \<^verbatim>\<open>--verbose\<close> it has printed nothing.  The links the command of \<^verbatim>\<open>tag/cli.py\<close> has
  created are the same list (none under \<^verbatim>\<open>--debug\<close>).  The command of \<^verbatim>\<open>src/cli.py\<close>
  always ends without an error and prints the same lines for its index.
\<close>

theorem index_report:
  "(cli_index env all debug recursive tree verbose path output fs0 = (None, w) \<longrightarrow>
      console w =
        (if verbose
         then map link_line (planned_links (os_path_abspath env path) (index_of env all recursive tree path output fs0))
              @ (if planned_links (os_path_abspath env path) (index_of env all recursive tree path output fs0) = [] then []
                 else summary debug (length (planned_links (os_path_abspath env path) (index_of env all recursive tree path output fs0))))
         else [])
      \<and> symlinks_of (calls w) =
        (if debug then [] else planned_links (os_path_abspath env path) (index_of env all recursive tree path output fs0)))
   \<and> fst (cli_index_src env permute1 all debug recursive verbose path output fs0) = None
   \<and> console (snd (cli_index_src env permute1 all debug recursive verbose path output fs0)) =
        (if verbose
         then map link_line (planned_links (os_path_abspath env path)
                (build_index (\<lambda>tag_list tree. permute1 tag_list) output False
                   (tagged_files (util_find_files env fs0 (os_path_abspath env path) recursive all))))
              @ (if planned_links (os_path_abspath env path)
                     (build_index (\<lambda>tag_list tree. permute1 tag_list) output False
                        (tagged_files (util_find_files env fs0 (os_path_abspath env path) recursive all))) = []
                 then []
                 else summary debug (length (planned_links (os_path_abspath env path)
                     (build_index (\<lambda>tag_list tree. permute1 tag_list) output False
                        (tagged_files (util_find_files env fs0 (os_path_abspath env path) recursive all))))))
         else [])
   \<and> sorted (sort (map fst (index_of env all recursive tree path output fs0)))"
  using cli_index_success [of env all debug recursive tree verbose path "output" fs0 w]
    cli_index_src_run [OF surjective_pairing, of env permute1 all debug recursive verbose path "output" fs0]
  by simp

theorem index_report_witness:
  "map fst (index_of demo_env_keys False False False ''/r'' ''OUTPUT'' []) =
     [''OUTPUT/foo/x{foo}.txt'', ''OUTPUT/bar/foo/y{foo}{bar}.txt'', ''OUTPUT/foo/bar/y{foo}{bar}.txt'']
   \<and> cli_index demo_env_keys False False False False True ''/r'' ''OUTPUT'' [] =
     (None, \<lparr>fs_state = [''OUTPUT/foo/x.txt'', ''OUTPUT/foo'', ''OUTPUT/foo/bar/y.txt'',
                          ''OUTPUT/foo/bar'', ''OUTPUT/bar/foo/y.txt'', ''OUTPUT/bar/foo''],
              calls = [Makedirs ''OUTPUT/bar/foo'', Symlink ''/r/y{foo}{bar}.txt'' ''OUTPUT/bar/foo/y.txt'',
                       Makedirs ''OUTPUT/foo/bar'', Symlink ''/r/y{foo}{bar}.txt'' ''OUTPUT/foo/bar/y.txt'',
                       Makedirs ''OUTPUT/foo'', Symlink ''/r/a/x{foo}.txt'' ''OUTPUT/foo/x.txt''],
              console = [''OUTPUT/bar/foo/y.txt -> /r/y{foo}{bar}.txt'',
                         ''OUTPUT/foo/bar/y.txt -> /r/y{foo}{bar}.txt'',
                         ''OUTPUT/foo/x.txt -> /r/a/x{foo}.txt'', [], ''3 files indexed.'']\<rparr>)
   \<and> planned_links (os_path_abspath demo_env_keys ''/r'')
        (index_of demo_env_keys False False False ''/r'' ''OUTPUT'' []) =
       [(''OUTPUT/bar/foo/y.txt'', ''/r/y{foo}{bar}.txt''), (''OUTPUT/foo/bar/y.txt'', ''/r/y{foo}{bar}.txt''),
        (''OUTPUT/foo/x.txt'', ''/r/a/x{foo}.txt'')]
   \<and> map link_line [(''OUTPUT/bar/foo/y.txt'', ''/r/y{foo}{bar}.txt''),
                      (''OUTPUT/foo/bar/y.txt'', ''/r/y{foo}{bar}.txt''),
                      (''OUTPUT/foo/x.txt'', ''/r/a/x{foo}.txt'')]
        @ summary False 3 =
       [''OUTPUT/bar/foo/y.txt -> /r/y{foo}{bar}.txt'', ''OUTPUT/foo/bar/y.txt -> /r/y{foo}{bar}.txt'',
        ''OUTPUT/foo/x.txt -> /r/a/x{foo}.txt'', [], ''3 files indexed.'']"
proof -
  let ?w = "\<lparr>fs_state = [''OUTPUT/foo/x.txt'', ''OUTPUT/foo'', ''OUTPUT/foo/bar/y.txt'',
                          ''OUTPUT/foo/bar'', ''OUTPUT/bar/foo/y.txt'', ''OUTPUT/bar/foo''],
              calls = [Makedirs ''OUTPUT/bar/foo'', Symlink ''/r/y{foo}{bar}.txt'' ''OUTPUT/bar/foo/y.txt'',
                       Makedirs ''OUTPUT/foo/bar'', Symlink ''/r/y{foo}{bar}.txt'' ''OUTPUT/foo/bar/y.txt'',
                       Makedirs ''OUTPUT/foo'', Symlink ''/r/a/x{foo}.txt'' ''OUTPUT/foo/x.txt''],
              console = [''OUTPUT/bar/foo/y.txt -> /r/y{foo}{bar}.txt'',
                         ''OUTPUT/foo/bar/y.txt -> /r/y{foo}{bar}.txt'',
                         ''OUTPUT/foo/x.txt -> /r/a/x{foo}.txt'', [], ''3 files indexed.'']\<rparr>"
  have keys: "map fst (index_of demo_env_keys False False False ''/r'' ''OUTPUT'' []) =
     [''OUTPUT/foo/x{foo}.txt'', ''OUTPUT/bar/foo/y{foo}{bar}.txt'', ''OUTPUT/foo/bar/y{foo}{bar}.txt'']"
    by code_simp
  have run: "cli_index demo_env_keys False False False False True ''/r'' ''OUTPUT'' [] = (None, ?w)"
    by code_simp
  have sl: "symlinks_of (calls ?w) =
     [(''OUTPUT/bar/foo/y.txt'', ''/r/y{foo}{bar}.txt''), (''OUTPUT/foo/bar/y.txt'', ''/r/y{foo}{bar}.txt''),
      (''OUTPUT/foo/x.txt'', ''/r/a/x{foo}.txt'')]"
    by simp
  have plan: "planned_links (os_path_abspath demo_env_keys ''/r'')
        (index_of demo_env_keys False False False ''/r'' ''OUTPUT'' []) =
       [(''OUTPUT/bar/foo/y.txt'', ''/r/y{foo}{bar}.txt''), (''OUTPUT/foo/bar/y.txt'', ''/r/y{foo}{bar}.txt''),
        (''OUTPUT/foo/x.txt'', ''/r/a/x{foo}.txt'')]"
    using index_report [of demo_env_keys False False False False True "''/r''" "''OUTPUT''" "[]" ?w] run sl
    by simp
  have lines: "map link_line [(''OUTPUT/bar/foo/y.txt'', ''/r/y{foo}{bar}.txt''),
                      (''OUTPUT/foo/bar/y.txt'', ''/r/y{foo}{bar}.txt''),
                      (''OUTPUT/foo/x.txt'', ''/r/a/x{foo}.txt'')]
        @ summary False 3 =
       [''OUTPUT/bar/foo/y.txt -> /r/y{foo}{bar}.txt'', ''OUTPUT/foo/bar/y.txt -> /r/y{foo}{bar}.txt'',
        ''OUTPUT/foo/x.txt -> /r/a/x{foo}.txt'', [], ''3 files indexed.'']"
    by code_simp
  show ?thesis using keys run plan lines by (intro conjI)
qed

subsection \<open>Dry runs\<close>

text \<open>
  C8: under \<^verbatim>\<open>--debug\<close> the index command of \<^verbatim>\<open>tag/cli.py\<close> leaves the file system as
  it was and issues no \<^verbatim>\<open>os.makedirs\<close> and no \<^verbatim>\<open>os.symlink\<close>, whatever these calls
  would do and however the run ends.  When the check of \<^verbatim>\<open>OUTPUT\<close> passes, the run ends
  without an error, and under \<^verbatim>\<open>--verbose\<close> it prints every planned link (the links a
  run without \<^verbatim>\<open>--debug\<close> creates) and their count.
\<close>

theorem index_debug_frame:
  assumes "cli_index env all True recursive tree verbose path output fs0 = (r, w)"
  shows "fs_state w = fs0 \<and> calls w = []
     \<and> (destination_check env fs0 output = None \<longrightarrow>
          r = None \<and>
          console w =
            (if verbose
             then map link_line (planned_links (os_path_abspath env path) (index_of env all recursive tree path output fs0))
                  @ (if planned_links (os_path_abspath env path) (index_of env all recursive tree path output fs0) = [] then []
                     else summary True (length (planned_links (os_path_abspath env path) (index_of env all recursive tree path output fs0))))
             else []))"
proof -
  note d = cli_index_debug [OF assms]
  show ?thesis
  proof (cases "destination_check env fs0 output = None")
    case True
    with d have "r = None" by simp
    with assms have "cli_index env all True recursive tree verbose path output fs0 = (None, w)" by simp
    from cli_index_success [OF this] d True \<open>r = None\<close> show ?thesis by simp
  next
    case False
    with d show ?thesis by blast
  qed
qed

theorem index_debug_frame_witness:
  "cli_index demo_env False True False False True ''/r'' ''OUTPUT'' [''keep''] =
     (None, \<lparr>fs_state = [''keep''], calls = [],
              console = [''OUTPUT/foo/x-a.txt -> /r/a/x{foo}.txt'',
                         ''OUTPUT/foo/x-b.txt -> /r/b/x{foo}.txt'', [], ''2 files to index.'']\<rparr>)
   \<and> destination_check demo_env [''keep''] ''OUTPUT'' = None
   \<and> fs_state (snd (cli_index demo_env False True False False True ''/r'' ''OUTPUT'' [''keep''])) = [''keep'']
   \<and> calls (snd (cli_index demo_env False True False False True ''/r'' ''OUTPUT'' [''keep''])) = []"
proof -
  have run: "cli_index demo_env False True False False True ''/r'' ''OUTPUT'' [''keep''] =
     (None, \<lparr>fs_state = [''keep''], calls = [],
              console = [''OUTPUT/foo/x-a.txt -> /r/a/x{foo}.txt'',
                         ''OUTPUT/foo/x-b.txt -> /r/b/x{foo}.txt'', [], ''2 files to index.'']\<rparr>)"
    by code_simp
  have dc: "destination_check demo_env [''keep''] ''OUTPUT'' = None" by code_simp
  from index_debug_frame [OF surjective_pairing, of demo_env False False False True "''/r''" "''OUTPUT''" "[''keep'']"]
  have "fs_state (snd (cli_index demo_env False True False False True ''/r'' ''OUTPUT'' [''keep''])) = [''keep'']"
    and "calls (snd (cli_index demo_env False True False False True ''/r'' ''OUTPUT'' [''keep''])) = []"
    by blast+
  with run dc show ?thesis by blast
qed

subsection \<open>The command of \<^verbatim>\<open>src/cli.py\<close>\<close>

text \<open>
  C10: the index command of \<^verbatim>\<open>src/cli.py\<close> never changes the file system: for every
  input, with or without \<^verbatim>\<open>--debug\<close>, it issues no \<^verbatim>\<open>os.makedirs\<close> and no
  \<^verbatim>\<open>os.symlink\<close> and leaves the file system as it was; it ends without an error also
  when \<^verbatim>\<open>OUTPUT\<close> exists and has entries; what it does is print.
\<close>

theorem index_src_no_mutation:
  assumes "cli_index_src env permute1 all debug recursive verbose path output fs0 = (r, w)"
  shows "r = None \<and> fs_state w = fs0 \<and> calls w = []
     \<and> cli_index_src env permute1 all debug recursive verbose path output fs0 =
         (None, \<lparr>fs_state = fs0, calls = [], console = console w\<rparr>)"
proof -
  from cli_index_src_run [OF assms] have "r = None" "fs_state w = fs0" "calls w = []" by blast+
  moreover from this have "w = \<lparr>fs_state = fs0, calls = [], console = console w\<rparr>" by simp
  ultimately show ?thesis using assms by simp
qed

theorem index_src_no_mutation_witness:
  "os_path_exists demo_env [''OUTPUT'', ''OUTPUT/old''] ''OUTPUT''
   \<and> os_listdir demo_env [''OUTPUT'', ''OUTPUT/old''] ''OUTPUT'' = Inr [''OUTPUT/old'']
   \<and> cli_index_src demo_env (\<lambda>tag_list. permute tag_list False) False False False True ''/r'' ''OUTPUT''
        [''OUTPUT'', ''OUTPUT/old''] =
      (None, \<lparr>fs_state = [''OUTPUT'', ''OUTPUT/old''], calls = [],
               console = [''OUTPUT/foo/x-a.txt -> /r/a/x{foo}.txt'',
                          ''OUTPUT/foo/x-b.txt -> /r/b/x{foo}.txt'', [], ''2 files indexed.'']\<rparr>)"
proof -
  have run: "cli_index_src demo_env (\<lambda>tag_list. permute tag_list False) False False False True ''/r'' ''OUTPUT''
        [''OUTPUT'', ''OUTPUT/old''] =
      (None, \<lparr>fs_state = [''OUTPUT'', ''OUTPUT/old''], calls = [],
               console = [''OUTPUT/foo/x-a.txt -> /r/a/x{foo}.txt'',
                          ''OUTPUT/foo/x-b.txt -> /r/b/x{foo}.txt'', [], ''2 files indexed.'']\<rparr>)"
    by code_simp
  have e: "os_path_exists demo_env [''OUTPUT'', ''OUTPUT/old''] ''OUTPUT''"
    "os_listdir demo_env [''OUTPUT'', ''OUTPUT/old''] ''OUTPUT'' = Inr [''OUTPUT/old'']"
    by code_simp+
  from index_src_no_mutation [OF run] run e show ?thesis by blast
qed

section \<open>Renaming a tag a file does not have\<close>

text \<open>
  C9, as stated: \<^verbatim>\<open>rename old new\<close> on a file without the tag \<^verbatim>\<open>old\<close> performs no
  rename and prints nothing.  A file whose name has its tags out of order is renamed
  all the same, as the name is serialized again with the tags in ascending order.
\<close>

theorem rename_absent_tag_renames_unsorted:
  "''x'' \<notin> tags file_unsorted
   \<and> cli_rename True False ''x'' ''y'' [file_unsorted] =
       [\<lparr>renamed = [(''/r/f{b}{a}.txt'', ''/r/f{a}{b}.txt'')],
         printed = [''/r/f{b}{a}.txt -> /r/f{a}{b}.txt'']\<rparr>]"
  by code_simp

text \<open>
  C9, amended: for every file whose tag set does not contain \<^verbatim>\<open>old_tag\<close>, the closure of
  \<^verbatim>\<open>rename old_tag new_tag\<close> leaves the tag set as it is, so the command does to the
  file what \<^verbatim>\<open>sort\<close> does; when the file's name is already the serialization of its
  tag set, no rename is performed and nothing is printed for it.
\<close>

theorem rename_absent_tag:
  assumes "old_tag \<notin> tags f"
  shows "rename_handler old_tag new_tag (tags f) = tags f
     \<and> cli_rename verbose debug old_tag new_tag [f] = cli_sort verbose debug [f]
     \<and> (new_path f (tags f) = original f \<longrightarrow>
          cli_rename verbose debug old_tag new_tag [f] = [\<lparr>renamed = [], printed = []\<rparr>])"
  using assms
  by (simp add: rename_handler_def cli_rename_def cli_sort_def rename_files_def rename_file_def)

theorem rename_absent_tag_witness:
  "''x'' \<notin> tags file_sorted \<and> new_path file_sorted (tags file_sorted) = original file_sorted
   \<and> rename_handler ''x'' ''y'' (tags file_sorted) = tags file_sorted
   \<and> cli_rename True False ''x'' ''y'' [file_sorted] = [\<lparr>renamed = [], printed = []\<rparr>]"
proof -
  have a: "''x'' \<notin> tags file_sorted" by code_simp
  have b: "new_path file_sorted (tags file_sorted) = original file_sorted" by code_simp
  show ?thesis using rename_absent_tag [OF a, of "''y''" True False] a b by blast
qed


end
